theory Spec2Isabelle
  imports Complex_Main "HOL-Library.Word"
begin

unbundle bit_operations_syntax

section \<open>Machine types and parameters\<close>

text \<open>
  The C integer types of \<^verbatim>\<open>poly.h\<close>. A signed type and the unsigned type of the same
  width share one word type: the bits are the same, \<open>sint\<close> reads them as two's
  complement and \<open>uint\<close>/\<open>unat\<close> as unsigned, so a cast between the two is the identity
  on the word.
\<close>

type_synonym int16_t = "16 word"
type_synonym uint16_t = "16 word"
type_synonym int32_t = "32 word"
type_synonym uint32_t = "32 word"

text \<open>
  Modelled from the spec: the macro \<^verbatim>\<open>MLKEM_Q\<close> of \<^verbatim>\<open>params.h\<close> is missing from the
  sources; the spec fixes the modulus as q = 3329.
\<close>

abbreviation MLKEM_Q :: "'a::numeral" where
  "MLKEM_Q \<equiv> 3329"

section \<open>Scalar codec (\<^verbatim>\<open>poly.h\<close>)\<close>

text \<open>
  \<^verbatim>\<open>scalar_compress_q_16\<close>: the statements of the C body in order. The cast
  \<^verbatim>\<open>(uint32_t)u\<close> keeps the bits, \<^verbatim>\<open><<=\<close>, \<^verbatim>\<open>+=\<close> and \<^verbatim>\<open>*=\<close> on \<^verbatim>\<open>uint32_t\<close> wrap
  modulo \<open>2 ^ 32\<close>, \<^verbatim>\<open>>>=\<close> is the logical shift.
\<close>

definition scalar_compress_q_16 :: "int32_t \<Rightarrow> uint32_t" where
  "scalar_compress_q_16 u =
     (let d0 = u;
          d0 = push_bit 4 d0;
          d0 = d0 + 1665;
          d0 = d0 * 80635;
          d0 = drop_bit 28 d0;
          d0 = d0 AND 0xF
      in d0)"

definition scalar_decompress_q_16 :: "uint32_t \<Rightarrow> uint32_t" where
  "scalar_decompress_q_16 u = ((u * MLKEM_Q) + 8) div 16"

definition scalar_compress_q_32 :: "int32_t \<Rightarrow> uint32_t" where
  "scalar_compress_q_32 u =
     (let d0 = u;
          d0 = push_bit 5 d0;
          d0 = d0 + 1664;
          d0 = d0 * 40318;
          d0 = drop_bit 27 d0;
          d0 = d0 AND 0x1f
      in d0)"

definition scalar_decompress_q_32 :: "uint32_t \<Rightarrow> uint32_t" where
  "scalar_decompress_q_32 u = ((u * MLKEM_Q) + 16) div 32"

text \<open>
  Modelled from the spec: \<^verbatim>\<open>cmov_int16\<close> of \<^verbatim>\<open>verify.h\<close> is missing from the sources.
  The spec describes it as a conditional move: the destination receives the value
  when the flag is set and is left alone otherwise. The flag is the C truth value
  (0 or 1) of the comparison at the call site.
\<close>

definition cmov_int16 :: "int16_t \<Rightarrow> int16_t \<Rightarrow> uint16_t \<Rightarrow> int16_t" where
  "cmov_int16 r v b = (if b = 0 then r else v)"

text \<open>
  \<^verbatim>\<open>scalar_signed_to_unsigned_q_16\<close>: the sum \<^verbatim>\<open>c + MLKEM_Q\<close> is computed in \<^verbatim>\<open>int\<close>
  and converted to the \<^verbatim>\<open>int16_t\<close> parameter of \<^verbatim>\<open>cmov_int16\<close>; \<^verbatim>\<open>c < 0\<close> is 0 or 1;
  the final cast to \<^verbatim>\<open>uint16_t\<close> keeps the bits.
\<close>

definition scalar_signed_to_unsigned_q_16 :: "int16_t \<Rightarrow> uint16_t" where
  "scalar_signed_to_unsigned_q_16 c =
     (let c = cmov_int16 c (word_of_int (sint c + MLKEM_Q)) (of_bool (sint c < 0))
      in c)"

text \<open>
  Distance of two residues on the circle of length q, the measure in which the
  compression error is stated.
\<close>

definition dist_mod_q :: "int \<Rightarrow> int \<Rightarrow> int" where
  "dist_mod_q a b = min \<bar>a - b\<bar> (MLKEM_Q - \<bar>a - b\<bar>)"

section \<open>Ring elements and the message codec\<close>

type_synonym uint8_t = "8 word"

text \<open>
  Modelled from the spec: the macros \<^verbatim>\<open>MLKEM_N\<close> and \<^verbatim>\<open>MLKEM_INDCPA_MSGBYTES\<close> of
  \<^verbatim>\<open>params.h\<close> are missing from the sources; the spec fixes 256 coefficients per ring
  element and a 32-byte (256-bit) message block.
\<close>

definition MLKEM_N :: nat where
  "MLKEM_N = 256"

definition MLKEM_INDCPA_MSGBYTES :: nat where
  "MLKEM_INDCPA_MSGBYTES = 32"

text \<open>The struct \<^verbatim>\<open>poly\<close> of \<^verbatim>\<open>poly.h\<close>: an array of \<^verbatim>\<open>MLKEM_N\<close> values of type \<^verbatim>\<open>int16_t\<close>.\<close>

record poly =
  coeffs :: "int16_t list"

text \<open>
  Modelled from the spec: the scalar compression \<open>compress(u, b)\<close> of the spec's scalar
  codec for a general bit-width, which the sources only instantiate for 16 and 32
  buckets: the rounded division \<open>\<lfloor>u * 2 ^ b / q + 1 / 2\<rfloor>\<close> taken modulo \<open>2 ^ b\<close>, in the
  integer form of the \<^verbatim>\<open>ENSURES\<close> clauses of \<^verbatim>\<open>poly.h\<close>.
\<close>

definition compress :: "nat \<Rightarrow> nat \<Rightarrow> nat" where
  "compress u b = ((u * 2 ^ b + MLKEM_Q div 2) div MLKEM_Q) mod 2 ^ b"

text \<open>
  Modelled from the spec: the body of \<^verbatim>\<open>poly_frommsg\<close> is missing from the sources
  (\<^verbatim>\<open>poly.h\<close> only declares it). By the spec, message bit \<open>k\<close> selects coefficient
  \<open>k\<close>: 0 for a clear bit and the midpoint constant for a set bit, through the
  conditional move. The spec leaves the order of the bits within a byte open; here
  bit \<open>k\<close> of the message is bit \<open>k mod 8\<close> of byte \<open>k div 8\<close>, least significant bit
  first, in both directions of the codec. The midpoint constant, which the spec gives
  only as the canonical value near \<open>q / 2\<close>, is the parameter \<open>half\<close>.
\<close>

definition poly_frommsg :: "int16_t \<Rightarrow> uint8_t list \<Rightarrow> poly" where
  "poly_frommsg half msg =
     \<lparr>coeffs = map (\<lambda>k. cmov_int16 0 half (of_bool (bit (msg ! (k div 8)) (k mod 8))))
                   [0..<MLKEM_N]\<rparr>"

text \<open>
  Modelled from the spec: the body of \<^verbatim>\<open>poly_tomsg\<close> is missing from the sources. By
  the spec, each coefficient is normalised to its unsigned residue and compressed to
  one bit; bit \<open>j\<close> of byte \<open>i\<close> comes from coefficient \<open>8 * i + j\<close>.
\<close>

definition poly_tomsg :: "poly \<Rightarrow> uint8_t list" where
  "poly_tomsg r =
     map (\<lambda>i. horner_sum of_nat 2
            (map (\<lambda>j. compress (unat (scalar_signed_to_unsigned_q_16 (coeffs r ! (8 * i + j)))) 1)
                 [0..<8]))
         [0..<MLKEM_INDCPA_MSGBYTES]"

section \<open>The sponge and the noise sampler\<close>

text \<open>
  Modelled from the spec: the single-lane sponge is missing from the sources, and its
  permutation is outside the spec's scope. The spec gives its interface: absorb an
  input into a state, then squeeze fixed-size blocks from the state. The two
  operations and the block size are the fields of a record, over an arbitrary type of
  lane states. \<open>shake256\<close> is the one-shot form: absorb, squeeze the blocks that cover
  the requested length, keep that many bytes.
\<close>

record 'st xof =
  xof_absorb :: "uint8_t list \<Rightarrow> 'st"
  xof_squeezeblock :: "'st \<Rightarrow> uint8_t list \<times> 'st"
  xof_rate :: nat

fun shake256_squeezeblocks :: "'st xof \<Rightarrow> nat \<Rightarrow> 'st \<Rightarrow> uint8_t list \<times> 'st" where
  "shake256_squeezeblocks X 0 s = ([], s)"
| "shake256_squeezeblocks X (Suc n) s =
     (let (blk, s') = xof_squeezeblock X s;
          (out, s'') = shake256_squeezeblocks X n s'
      in (blk @ out, s''))"

definition nblocks_for :: "'st xof \<Rightarrow> nat \<Rightarrow> nat" where
  "nblocks_for X outlen = (outlen + xof_rate X - 1) div xof_rate X"

definition shake256 :: "'st xof \<Rightarrow> nat \<Rightarrow> uint8_t list \<Rightarrow> uint8_t list" where
  "shake256 X outlen inp =
     (let state = xof_absorb X inp;
          (out, state) = shake256_squeezeblocks X (nblocks_for X outlen) state
      in take outlen out)"

text \<open>
  Modelled from the spec: the bodies of \<^verbatim>\<open>shake256x4_absorb\<close>,
  \<^verbatim>\<open>shake256x4_squeezeblocks\<close> and \<^verbatim>\<open>shake256x4\<close> are missing from the sources
  (\<^verbatim>\<open>fips202x4.h\<close> only declares them). By the spec the 4-lane form packs four
  independent absorbs into one state and squeezes the four output streams together,
  block by block.
\<close>

type_synonym 'st keccakx4_state = "'st \<times> 'st \<times> 'st \<times> 'st"

definition shake256x4_absorb ::
  "'st xof \<Rightarrow> uint8_t list \<Rightarrow> uint8_t list \<Rightarrow> uint8_t list \<Rightarrow> uint8_t list \<Rightarrow> 'st keccakx4_state" where
  "shake256x4_absorb X in0 in1 in2 in3 =
     (xof_absorb X in0, xof_absorb X in1, xof_absorb X in2, xof_absorb X in3)"

fun shake256x4_squeezeblocks ::
  "'st xof \<Rightarrow> nat \<Rightarrow> 'st keccakx4_state \<Rightarrow>
     (uint8_t list \<times> uint8_t list \<times> uint8_t list \<times> uint8_t list) \<times> 'st keccakx4_state" where
  "shake256x4_squeezeblocks X 0 state = (([], [], [], []), state)"
| "shake256x4_squeezeblocks X (Suc n) (s0, s1, s2, s3) =
     (let (b0, s0') = xof_squeezeblock X s0;
          (b1, s1') = xof_squeezeblock X s1;
          (b2, s2') = xof_squeezeblock X s2;
          (b3, s3') = xof_squeezeblock X s3;
          ((out0, out1, out2, out3), state') = shake256x4_squeezeblocks X n (s0', s1', s2', s3')
      in ((b0 @ out0, b1 @ out1, b2 @ out2, b3 @ out3), state'))"

definition shake256x4 ::
  "'st xof \<Rightarrow> nat \<Rightarrow> uint8_t list \<Rightarrow> uint8_t list \<Rightarrow> uint8_t list \<Rightarrow> uint8_t list \<Rightarrow>
     uint8_t list \<times> uint8_t list \<times> uint8_t list \<times> uint8_t list" where
  "shake256x4 X outlen in0 in1 in2 in3 =
     (let state = shake256x4_absorb X in0 in1 in2 in3;
          ((out0, out1, out2, out3), state) = shake256x4_squeezeblocks X (nblocks_for X outlen) state
      in (take outlen out0, take outlen out1, take outlen out2, take outlen out3))"

text \<open>
  Modelled from the spec: the centered binomial sampler is missing from the sources.
  By the spec it reads \<open>64 * \<eta>\<close> bytes as a bit stream with \<open>2 * \<eta>\<close> bits per
  coefficient and returns, for each coefficient, the number of set bits among its \<open>\<eta>\<close>
  high bits minus the number among its \<open>\<eta>\<close> low bits. A buffer of another length
  violates the contract, which is the result \<open>None\<close>.
\<close>

definition bits_of_bytes :: "uint8_t list \<Rightarrow> bool list" where
  "bits_of_bytes buf = concat (map (\<lambda>b. map (bit b) [0..<8]) buf)"

definition count_bits :: "bool list \<Rightarrow> nat \<Rightarrow> nat \<Rightarrow> int" where
  "count_bits bs start n = (\<Sum>j\<leftarrow>[0..<n]. of_bool (bs ! (start + j)))"

definition poly_cbd :: "nat \<Rightarrow> uint8_t list \<Rightarrow> poly option" where
  "poly_cbd eta buf =
     (if length buf \<noteq> 64 * eta then None
      else let bs = bits_of_bytes buf in
        Some \<lparr>coeffs = map (\<lambda>i. word_of_int (count_bits bs (2 * eta * i + eta) eta
                                                - count_bits bs (2 * eta * i) eta))
                            [0..<MLKEM_N]\<rparr>)"

text \<open>
  Modelled from the spec: the bodies of \<^verbatim>\<open>poly_getnoise_eta2\<close> and
  \<^verbatim>\<open>poly_getnoise_eta2_4x\<close> are missing from the sources (\<^verbatim>\<open>poly.h\<close> only declares
  them). By the spec each lane absorbs the seed followed by its nonce byte, requests
  \<open>64 * \<eta>\<close> bytes and samples them; the batched form makes one call to the 4-lane
  sponge. The noise parameter of \<^verbatim>\<open>params.h\<close> is the parameter \<open>eta2\<close>.
\<close>

definition poly_getnoise_eta2 :: "'st xof \<Rightarrow> nat \<Rightarrow> uint8_t list \<Rightarrow> uint8_t \<Rightarrow> poly option" where
  "poly_getnoise_eta2 X eta2 seed nonce =
     (let buf = shake256 X (64 * eta2) (seed @ [nonce]) in poly_cbd eta2 buf)"

definition poly_getnoise_eta2_4x ::
  "'st xof \<Rightarrow> nat \<Rightarrow> uint8_t list \<Rightarrow> uint8_t \<Rightarrow> uint8_t \<Rightarrow> uint8_t \<Rightarrow> uint8_t \<Rightarrow>
     poly option \<times> poly option \<times> poly option \<times> poly option" where
  "poly_getnoise_eta2_4x X eta2 seed nonce0 nonce1 nonce2 nonce3 =
     (let (buf0, buf1, buf2, buf3) =
            shake256x4 X (64 * eta2) (seed @ [nonce0]) (seed @ [nonce1]) (seed @ [nonce2]) (seed @ [nonce3])
      in (poly_cbd eta2 buf0, poly_cbd eta2 buf1, poly_cbd eta2 buf2, poly_cbd eta2 buf3))"

section \<open>Word arithmetic read as integers\<close>

lemma and_0xF: "uint ((x :: 32 word) AND 0xF) = uint x mod 16"
proof -
  have "(0xF :: 32 word) = mask 4"
    by (simp add: mask_eq_exp_minus_1)
  then have "x AND 0xF = take_bit 4 x"
    by (simp only: take_bit_eq_mask)
  then show ?thesis
    by (simp add: unsigned_take_bit_eq take_bit_eq_mod uint_mod)
qed

lemma and_0x1f: "uint ((x :: 32 word) AND 0x1f) = uint x mod 32"
proof -
  have "(0x1f :: 32 word) = mask 5"
    by (simp add: mask_eq_exp_minus_1)
  then have "x AND 0x1f = take_bit 5 x"
    by (simp only: take_bit_eq_mask)
  then show ?thesis
    by (simp add: unsigned_take_bit_eq take_bit_eq_mod uint_mod)
qed

lemma mulshift16:
  fixes y :: int
  assumes "0 \<le> y" "y \<le> 54912"
  shows "((y + 1) * 80635) div 2 ^ 28 = y div 3329"
proof -
  define k r where "k = y div 3329" and "r = y mod 3329"
  have y: "y = 3329 * k + r" and r: "0 \<le> r" "r < 3329"
    by (simp_all add: k_def r_def)
  have k: "0 \<le> k" "k \<le> 16"
    using assms by (simp_all add: k_def)
  have "((y + 1) * 80635) div 2 ^ 28 = k"
  proof (rule int_div_pos_eq [where r = "(r + 1) * 80635 - 1541 * k"])
    show "(y + 1) * 80635 = 2 ^ 28 * k + ((r + 1) * 80635 - 1541 * k)"
      using y by simp
    show "0 \<le> (r + 1) * 80635 - 1541 * k"
      using r k by simp
    show "(r + 1) * 80635 - 1541 * k < 2 ^ 28"
      using r k by simp
  qed
  then show ?thesis
    by (simp add: k_def)
qed

lemma mulshift32:
  fixes y :: int
  assumes "0 \<le> y" "y \<le> 108160"
  shows "(y * 40318) div 2 ^ 27 = y div 3329"
proof -
  define k r where "k = y div 3329" and "r = y mod 3329"
  have y: "y = 3329 * k + r" and r: "0 \<le> r" "r < 3329"
    by (simp_all add: k_def r_def)
  have k: "0 \<le> k" "k \<le> 32"
    using assms by (simp_all add: k_def)
  have "(y * 40318) div 2 ^ 27 = k"
  proof (rule int_div_pos_eq [where r = "r * 40318 + 894 * k"])
    show "y * 40318 = 2 ^ 27 * k + (r * 40318 + 894 * k)"
      using y by simp
    show "0 \<le> r * 40318 + 894 * k"
      using r k by simp
    show "r * 40318 + 894 * k < 2 ^ 27"
      using r k by simp
  qed
  then show ?thesis
    by (simp add: k_def)
qed

lemma mod_div_pow: "(x :: int) mod 2 ^ 32 div 2 ^ 28 = x div 2 ^ 28 mod 16"
  using zmod_zmult2_eq [where a = x and b = "2 ^ 28" and c = 16] by simp

lemma mod_div_pow': "(x :: int) mod 2 ^ 32 div 2 ^ 27 = x div 2 ^ 27 mod 32"
  using zmod_zmult2_eq [where a = x and b = "2 ^ 27" and c = 32] by simp

lemma uint_c16: "uint (scalar_compress_q_16 u) = ((uint u * 16 + 1665) * 80635) mod 2 ^ 32 div 2 ^ 28 mod 16"
  by (simp add: scalar_compress_q_16_def and_0xF uint_div drop_bit_eq_div push_bit_eq_mult
     uint_word_ariths mod_simps)

lemma uint_c32: "uint (scalar_compress_q_32 u) = ((uint u * 32 + 1664) * 40318) mod 2 ^ 32 div 2 ^ 27 mod 32"
  by (simp add: scalar_compress_q_32_def and_0x1f uint_div drop_bit_eq_div push_bit_eq_mult
     uint_word_ariths mod_simps)



lemma uint_sint_mod32: "uint (w :: 32 word) = sint w mod 2 ^ 32"
  by (simp add: uint_sint take_bit_eq_mod)

lemma uint_sint_mod16: "uint (w :: 16 word) = sint w mod 2 ^ 16"
  by (simp add: uint_sint take_bit_eq_mod)

lemma uint_eq_sint32: "0 \<le> sint (w :: 32 word) \<Longrightarrow> uint w = sint w"
  using sint_lt [of w] by (simp add: uint_sint_mod32)

lemma compress16_exact:
  assumes "0 \<le> sint u" "sint u \<le> 3328"
  shows "uint (scalar_compress_q_16 u) = ((sint u * 16 + 1664) div 3329) mod 16"
proof -
  have "uint (scalar_compress_q_16 u) = ((uint u * 16 + 1665) * 80635) div 2 ^ 28 mod 16"
    by (simp only: uint_c16 mod_div_pow mod_mod_trivial)
  also have "uint u * 16 + 1665 = sint u * 16 + 1664 + 1"
    using assms by (simp add: uint_eq_sint32)
  also have "((sint u * 16 + 1664 + 1) * 80635) div 2 ^ 28 = (sint u * 16 + 1664) div 3329"
    using assms by (intro mulshift16) simp_all
  finally show ?thesis .
qed

lemma compress32_exact:
  assumes "0 \<le> sint u" "sint u \<le> 3328"
  shows "uint (scalar_compress_q_32 u) = ((sint u * 32 + 1664) div 3329) mod 32"
proof -
  have "uint (scalar_compress_q_32 u) = ((uint u * 32 + 1664) * 40318) div 2 ^ 27 mod 32"
    by (simp only: uint_c32 mod_div_pow' mod_mod_trivial)
  also have "uint u = sint u"
    using assms by (simp add: uint_eq_sint32)
  also have "((sint u * 32 + 1664) * 40318) div 2 ^ 27 = (sint u * 32 + 1664) div 3329"
    using assms by (intro mulshift32) simp_all
  finally show ?thesis .
qed

lemma uint_d16: "uint d \<le> 15 \<Longrightarrow> uint (scalar_decompress_q_16 d) = (uint d * 3329 + 8) div 16"
  by (simp add: scalar_decompress_q_16_def uint_div uint_word_ariths)

lemma uint_d32: "uint d \<le> 31 \<Longrightarrow> uint (scalar_decompress_q_32 d) = (uint d * 3329 + 16) div 32"
  by (simp add: scalar_decompress_q_32_def uint_div uint_word_ariths)

lemma round_div16: "round (real_of_int a / 16) = (a + 8) div 16"
proof -
  have "real_of_int a / 16 + 1 / 2 = real_of_int (a + 8) / real_of_int 16"
    by simp
  then show ?thesis
    unfolding round_def by (simp only: floor_divide_of_int_eq)
qed

lemma round_div32: "round (real_of_int a / 32) = (a + 16) div 32"
proof -
  have "real_of_int a / 32 + 1 / 2 = real_of_int (a + 16) / real_of_int 32"
    by simp
  then show ?thesis
    unfolding round_def by (simp only: floor_divide_of_int_eq)
qed

lemma uint_lt_sint32:
  assumes "uint (w :: 32 word) < 2 ^ 31"
  shows "sint w = uint w"
proof -
  have "(0 :: int) \<le> uint w"
    by simp
  then have "- (2 ^ 31) \<le> uint w"
    by (rule order_trans [rotated]) simp
  then have "signed_take_bit 31 (uint w) = uint w"
    using assms by (rule signed_take_bit_int_eq_self)
  then show ?thesis
    by (simp add: sint_uint)
qed

lemma d16_bound: "0 \<le> (x :: int) \<Longrightarrow> x \<le> 15 \<Longrightarrow> (x * 3329 + 8) div 16 \<le> 3121"
  by linarith

lemma d32_bound: "0 \<le> (x :: int) \<Longrightarrow> x \<le> 31 \<Longrightarrow> (x * 3329 + 16) div 32 \<le> 3225"
  by linarith

lemma decompress16_range: "uint d \<le> 15 \<Longrightarrow> uint (scalar_decompress_q_16 d) \<le> 3121"
  using d16_bound [of "uint d"] by (simp add: uint_d16)

lemma decompress32_range: "uint d \<le> 31 \<Longrightarrow> uint (scalar_decompress_q_32 d) \<le> 3225"
  using d32_bound [of "uint d"] by (simp add: uint_d32)

lemma arith_inv16:
  fixes x :: int
  assumes "0 \<le> x" "x \<le> 15"
  shows "(((x * 3329 + 8) div 16) * 16 + 1664) div 3329 mod 16 = x"
proof -
  define s where "s = (x * 3329 + 8) mod 16"
  have s: "0 \<le> s" "s < 16" by (simp_all add: s_def)
  have "((x * 3329 + 8) div 16) * 16 = x * 3329 + 8 - s"
    unfolding s_def by (simp add: minus_mod_eq_div_mult)
  then have "(((x * 3329 + 8) div 16) * 16 + 1664) div 3329 = x"
    using s by (intro int_div_pos_eq [where r = "1672 - s"]) simp_all
  then show ?thesis using assms by simp
qed

lemma arith_inv32:
  fixes x :: int
  assumes "0 \<le> x" "x \<le> 31"
  shows "(((x * 3329 + 16) div 32) * 32 + 1664) div 3329 mod 32 = x"
proof -
  define s where "s = (x * 3329 + 16) mod 32"
  have s: "0 \<le> s" "s < 32" by (simp_all add: s_def)
  have "((x * 3329 + 16) div 32) * 32 = x * 3329 + 16 - s"
    unfolding s_def by (simp add: minus_mod_eq_div_mult)
  then have "(((x * 3329 + 16) div 32) * 32 + 1664) div 3329 = x"
    using s by (intro int_div_pos_eq [where r = "1680 - s"]) simp_all
  then show ?thesis using assms by simp
qed

lemma err16:
  fixes x :: int
  assumes "0 \<le> x" "x \<le> 3328"
  shows "dist_mod_q ((((x * 16 + 1664) div 3329) mod 16 * 3329 + 8) div 16) x \<le> 104"
proof -
  define k r where "k = (x * 16 + 1664) div 3329" and "r = (x * 16 + 1664) mod 3329"
  have kr: "x * 16 + 1664 = 3329 * k + r" "0 \<le> r" "r < 3329"
    by (simp_all add: k_def r_def)
  have k: "0 \<le> k" "k \<le> 16"
    using assms kr by linarith+
  show ?thesis
  proof (cases "k = 16")
    case True
    then have "3225 \<le> x"
      using kr by linarith
    then show ?thesis
      using assms True by (simp add: dist_mod_q_def k_def [symmetric])
  next
    case False
    then have km: "k mod 16 = k"
      using k by simp
    define v s where "v = (k * 3329 + 8) div 16" and "s = (k * 3329 + 8) mod 16"
    have vs: "16 * v + s = k * 3329 + 8" "0 \<le> s" "s < 16"
      by (simp_all add: v_def s_def)
    have "\<bar>v - x\<bar> \<le> 104"
      using kr vs by linarith
    then show ?thesis
      by (simp add: dist_mod_q_def k_def [symmetric] km v_def [symmetric])
  qed
qed

lemma err32:
  fixes x :: int
  assumes "0 \<le> x" "x \<le> 3328"
  shows "dist_mod_q ((((x * 32 + 1664) div 3329) mod 32 * 3329 + 16) div 32) x \<le> 52"
proof -
  define k r where "k = (x * 32 + 1664) div 3329" and "r = (x * 32 + 1664) mod 3329"
  have kr: "x * 32 + 1664 = 3329 * k + r" "0 \<le> r" "r < 3329"
    by (simp_all add: k_def r_def)
  have k: "0 \<le> k" "k \<le> 32"
    using assms kr by linarith+
  show ?thesis
  proof (cases "k = 32")
    case True
    then have "3277 \<le> x"
      using kr by linarith
    then show ?thesis
      using assms True by (simp add: dist_mod_q_def k_def [symmetric])
  next
    case False
    then have km: "k mod 32 = k"
      using k by simp
    define v s where "v = (k * 3329 + 16) div 32" and "s = (k * 3329 + 16) mod 32"
    have vs: "32 * v + s = k * 3329 + 16" "0 \<le> s" "s < 32"
      by (simp_all add: v_def s_def)
    have "\<bar>v - x\<bar> \<le> 52"
      using kr vs by linarith
    then show ?thesis
      by (simp add: dist_mod_q_def k_def [symmetric] km v_def [symmetric])
  qed
qed

lemma compress16_code: "uint (scalar_compress_q_16 u) \<le> 15"
  using uint_c16 [of u] pos_mod_bound [of 16 "((uint u * 16 + 1665) * 80635) mod 2 ^ 32 div 2 ^ 28"]
  by linarith

lemma compress32_code: "uint (scalar_compress_q_32 u) \<le> 31"
  using uint_c32 [of u] pos_mod_bound [of 32 "((uint u * 32 + 1664) * 40318) mod 2 ^ 32 div 2 ^ 27"]
  by linarith

lemma round_q32: "round (MLKEM_Q / 2 ^ 5 :: real) = 104"
  using round_div32 [of 3329] by simp

lemma round_q64: "round (MLKEM_Q / 2 ^ 6 :: real) = 52"
  by (simp add: round_def)

lemma c16_3225: "scalar_compress_q_16 3225 = 0"
  by (simp add: scalar_compress_q_16_def drop_bit_eq_div)

lemma c32_3277: "scalar_compress_q_32 3277 = 0"
  by (simp add: scalar_compress_q_32_def drop_bit_eq_div)

lemma uint_eq_sint16: "0 \<le> sint (w :: 16 word) \<Longrightarrow> uint w = sint w"
  using sint_lt [of w] by (simp add: uint_sint_mod16)

lemma uint_lt_sint16:
  assumes "uint (w :: 16 word) < 2 ^ 15"
  shows "sint w = uint w"
proof -
  have "(0 :: int) \<le> uint w"
    by simp
  then have "- (2 ^ 15) \<le> uint w"
    by (rule order_trans [rotated]) simp
  then have "signed_take_bit 15 (uint w) = uint w"
    using assms by (rule signed_take_bit_int_eq_self)
  then show ?thesis
    by (simp add: sint_uint)
qed

lemma to_unsigned_uint:
  assumes "- 3328 \<le> sint c" and "sint c \<le> 3328"
  shows "uint (scalar_signed_to_unsigned_q_16 c) = (if sint c < 0 then sint c + 3329 else sint c)"
proof (cases "sint c < 0")
  case True
  then have eq: "scalar_signed_to_unsigned_q_16 c = word_of_int (sint c + 3329)"
    by (simp add: scalar_signed_to_unsigned_q_16_def cmov_int16_def)
  have w: "uint (word_of_int (sint c + 3329) :: 16 word) = (sint c + 3329) mod 2 ^ 16"
    by (subst uint_word_of_int) simp
  have m: "(sint c + 3329) mod 2 ^ 16 = sint c + 3329"
    using assms True by (intro mod_pos_pos_trivial) simp_all
  show ?thesis
    by (simp only: eq w m True if_True)
next
  case False
  then have "scalar_signed_to_unsigned_q_16 c = c"
    by (simp add: scalar_signed_to_unsigned_q_16_def cmov_int16_def)
  then show ?thesis
    using False by (simp add: uint_eq_sint16)
qed

lemma to_unsigned_examples:
  "scalar_signed_to_unsigned_q_16 0 = 0"
  "scalar_signed_to_unsigned_q_16 1 = 1"
  "scalar_signed_to_unsigned_q_16 3328 = 3328"
  "scalar_signed_to_unsigned_q_16 (- 1) = 3328"
  "scalar_signed_to_unsigned_q_16 (- 2) = 3327"
  "scalar_signed_to_unsigned_q_16 (- 3328) = 1"
  by (simp_all add: scalar_signed_to_unsigned_q_16_def cmov_int16_def)

section \<open>The message codec\<close>

lemma compress_floor:
  "int (compress u b) = \<lfloor>real u * 2 ^ b / MLKEM_Q + 1 / 2\<rfloor> mod 2 ^ b"
proof -
  have "real u * 2 ^ b / 3329 + 1 / 2 = real_of_int (2 * (int u * 2 ^ b) + 3329) / real_of_int 6658"
    by simp
  then have "\<lfloor>real u * 2 ^ b / 3329 + 1 / 2\<rfloor> = (2 * (int u * 2 ^ b) + 3329) div 6658"
    by (simp only: floor_divide_of_int_eq)
  also have "\<dots> = (int u * 2 ^ b + 1664) div 3329"
  proof -
    have "(2 * (int u * 2 ^ b) + 3329) div 6658 = ((2 * (int u * 2 ^ b) + 3329) div 2) div 3329"
      by (simp add: zdiv_zmult2_eq)
    also have "(2 * (int u * 2 ^ b) + 3329) div 2 = int u * 2 ^ b + 1664"
      by simp
    finally show ?thesis .
  qed
  finally show ?thesis
    by (simp add: compress_def zdiv_int zmod_int)
qed

lemma scalar_compress_q_16_compress:
  assumes "0 \<le> sint u" and "sint u \<le> 3328"
  shows "unat (scalar_compress_q_16 u) = compress (unat u) 4"
proof -
  have "int (unat (scalar_compress_q_16 u)) = int (compress (unat u) 4)"
    using compress16_exact [OF assms] uint_eq_sint32 [OF assms(1)]
    by (simp add: compress_def zdiv_int zmod_int)
  then show ?thesis
    by (simp only: of_nat_eq_iff)
qed

lemma scalar_compress_q_32_compress:
  assumes "0 \<le> sint u" and "sint u \<le> 3328"
  shows "unat (scalar_compress_q_32 u) = compress (unat u) 5"
proof -
  have "int (unat (scalar_compress_q_32 u)) = int (compress (unat u) 5)"
    using compress32_exact [OF assms] uint_eq_sint32 [OF assms(1)]
    by (simp add: compress_def zdiv_int zmod_int)
  then show ?thesis
    by (simp only: of_nat_eq_iff)
qed

lemma to_unsigned_id: "0 \<le> sint c \<Longrightarrow> scalar_signed_to_unsigned_q_16 c = c"
  by (simp add: scalar_signed_to_unsigned_q_16_def cmov_int16_def)

lemma decode_bit:
  assumes "half = MLKEM_Q div 2 \<or> half = MLKEM_Q div 2 + 1"
  shows "compress (unat (scalar_signed_to_unsigned_q_16 (cmov_int16 0 half (of_bool B)))) 1 = of_bool B"
  using assms by (auto simp: cmov_int16_def to_unsigned_id compress_def)

lemma byte_of_bits: "horner_sum of_nat 2 (map (\<lambda>j. of_bool (bit (b :: uint8_t) j)) [0..<8]) = b"
proof -
  have "horner_sum of_nat 2 (map (\<lambda>j. of_bool (bit b j) :: nat) [0..<8])
      = horner_sum of_bool 2 (map (bit b) [0..<8])"
    by (simp add: horner_sum_foldr comp_def foldr_map)
  also have "\<dots> = take_bit 8 b"
    by (rule horner_sum_bit_eq_take_bit)
  also have "\<dots> = b"
    by (simp add: take_bit_word_eq_self)
  finally show ?thesis .
qed

section \<open>The lanes of the 4-way sponge\<close>

lemma squeezeblocks_x4_lanes:
  "fst (shake256x4_squeezeblocks X n (s0, s1, s2, s3)) =
     (fst (shake256_squeezeblocks X n s0), fst (shake256_squeezeblocks X n s1),
      fst (shake256_squeezeblocks X n s2), fst (shake256_squeezeblocks X n s3))"
proof (induction n arbitrary: s0 s1 s2 s3)
  case 0
  show ?case by simp
next
  case (Suc n)
  obtain b0 t0 b1 t1 b2 t2 b3 t3 where sq:
    "xof_squeezeblock X s0 = (b0, t0)" "xof_squeezeblock X s1 = (b1, t1)"
    "xof_squeezeblock X s2 = (b2, t2)" "xof_squeezeblock X s3 = (b3, t3)"
    by (metis surj_pair)
  show ?case
    using Suc.IH [of t0 t1 t2 t3]
    by (simp add: sq split_beta)
qed

lemma shake256x4_lanes:
  "shake256x4 X outlen in0 in1 in2 in3 =
     (shake256 X outlen in0, shake256 X outlen in1, shake256 X outlen in2, shake256 X outlen in3)"
  using squeezeblocks_x4_lanes [of X "nblocks_for X outlen" "xof_absorb X in0" "xof_absorb X in1"
      "xof_absorb X in2" "xof_absorb X in3"]
  by (simp add: shake256x4_def shake256_def shake256x4_absorb_def split_beta)

lemma squeezeblocks_length:
  assumes "\<And>s. length (fst (xof_squeezeblock X s)) = xof_rate X"
  shows "length (fst (shake256_squeezeblocks X n s)) = n * xof_rate X"
  by (induction n arbitrary: s) (simp_all add: split_beta assms)

lemma shake256_length:
  assumes "\<And>s. length (fst (xof_squeezeblock X s)) = xof_rate X" and "0 < xof_rate X"
  shows "length (shake256 X outlen inp) = outlen"
proof -
  have "outlen \<le> nblocks_for X outlen * xof_rate X"
  proof -
    have "outlen + xof_rate X - 1 < (nblocks_for X outlen + 1) * xof_rate X"
      unfolding nblocks_for_def using assms(2)
      by (metis Suc_eq_plus1 dividend_less_div_times mult.commute add.commute mult_Suc)
    then show ?thesis using assms(2) by simp
  qed
  then show ?thesis
    by (simp add: shake256_def split_beta squeezeblocks_length [OF assms(1)])
qed

lemma poly_getnoise_eta2_defined:
  assumes "\<And>s. length (fst (xof_squeezeblock X s)) = xof_rate X" and "0 < xof_rate X"
  shows "poly_getnoise_eta2 X eta2 seed nonce \<noteq> None"
  by (simp add: poly_getnoise_eta2_def poly_cbd_def Let_def shake256_length [OF assms])

section \<open>The claims\<close>

text \<open>
  C1. For every \<open>u\<close> in \<open>[0, q - 1]\<close> the multiply-and-shift bodies of
  \<^verbatim>\<open>scalar_compress_q_16\<close> and \<^verbatim>\<open>scalar_compress_q_32\<close> return exactly the rounded
  division \<open>((u * 2 ^ b + 1664) div q) mod 2 ^ b\<close>, while computing
  \<open>((u << 4) + 1665) * 80635 >> 28 & 0xF\<close> and \<open>((u << 5) + 1664) * 40318 >> 27 & 0x1f\<close>
  with the product taken modulo \<open>2 ^ 32\<close>.
\<close>

theorem scalar_compress_exact:
  assumes "0 \<le> sint u" and "sint u \<le> MLKEM_Q - 1"
  shows "uint (scalar_compress_q_16 u) = ((sint u * 16 + 1664) div MLKEM_Q) mod 16 \<and>
     uint (scalar_compress_q_32 u) = ((sint u * 32 + 1664) div MLKEM_Q) mod 32 \<and>
     uint (scalar_compress_q_16 u) = ((uint u * 16 + 1665) * 80635) mod 2 ^ 32 div 2 ^ 28 mod 16 \<and>
     uint (scalar_compress_q_32 u) = ((uint u * 32 + 1664) * 40318) mod 2 ^ 32 div 2 ^ 27 mod 32"
proof -
  have r: "sint u \<le> 3328" using assms(2) by simp
  show ?thesis
    using compress16_exact [OF assms(1) r] compress32_exact [OF assms(1) r]
      uint_c16 [of u] uint_c32 [of u]
    by blast
qed

theorem scalar_compress_exact_witness:
  "0 \<le> sint (3328 :: int32_t) \<and> sint (3328 :: int32_t) \<le> MLKEM_Q - 1 \<and>
   uint (scalar_compress_q_16 3328) = 0 \<and> uint (scalar_compress_q_32 3328) = 0"
proof -
  have a: "0 \<le> sint (3328 :: int32_t)" by simp
  have b: "sint (3328 :: int32_t) \<le> MLKEM_Q - 1" by simp
  have c: "((sint (3328 :: int32_t) * 16 + 1664) div MLKEM_Q) mod 16 = 0" by simp
  have d: "((sint (3328 :: int32_t) * 32 + 1664) div MLKEM_Q) mod 32 = 0" by simp
  from scalar_compress_exact [OF a b] a b show ?thesis
    unfolding c d by blast
qed

text \<open>
  C8. For every code \<open>d\<close> below \<open>2 ^ b\<close> the decompression \<open>(d * q + 2 ^ (b - 1)) div 2 ^ b\<close>
  is \<open>round (d * q / 2 ^ b)\<close> and lies in \<open>[0, q - 1]\<close>, for \<open>b = 4\<close>
  (\<^verbatim>\<open>scalar_decompress_q_16\<close>) and \<open>b = 5\<close> (\<^verbatim>\<open>scalar_decompress_q_32\<close>). Here \<open>round x\<close>
  is \<open>\<lfloor>x + 1 / 2\<rfloor>\<close>, the rounding of the spec's compression formula; the only ties are
  \<open>d = 8\<close> of the 16-bucket codec and \<open>d = 16\<close> of the 32-bucket codec.
\<close>

theorem scalar_decompress_round:
  assumes "uint d \<le> 15" and "uint e \<le> 31"
  shows "uint (scalar_decompress_q_16 d) = (uint d * MLKEM_Q + 8) div 16 \<and>
     uint (scalar_decompress_q_16 d) = round (real_of_int (uint d * MLKEM_Q) / 16) \<and>
     0 \<le> uint (scalar_decompress_q_16 d) \<and> uint (scalar_decompress_q_16 d) \<le> MLKEM_Q - 1 \<and>
     uint (scalar_decompress_q_32 e) = (uint e * MLKEM_Q + 16) div 32 \<and>
     uint (scalar_decompress_q_32 e) = round (real_of_int (uint e * MLKEM_Q) / 32) \<and>
     0 \<le> uint (scalar_decompress_q_32 e) \<and> uint (scalar_decompress_q_32 e) \<le> MLKEM_Q - 1"
proof -
  have "uint (scalar_decompress_q_16 d) \<le> MLKEM_Q - 1"
    using decompress16_range [OF assms(1)] by simp
  moreover have "uint (scalar_decompress_q_32 e) \<le> MLKEM_Q - 1"
    using decompress32_range [OF assms(2)] by simp
  moreover have "uint (scalar_decompress_q_16 d) = round (real_of_int (uint d * MLKEM_Q) / 16)"
    by (simp only: uint_d16 [OF assms(1)] round_div16)
  moreover have "uint (scalar_decompress_q_32 e) = round (real_of_int (uint e * MLKEM_Q) / 32)"
    by (simp only: uint_d32 [OF assms(2)] round_div32)
  moreover have "0 \<le> uint (scalar_decompress_q_16 d)" "0 \<le> uint (scalar_decompress_q_32 e)"
    by simp_all
  ultimately show ?thesis
    using uint_d16 [OF assms(1)] uint_d32 [OF assms(2)] by blast
qed

theorem scalar_decompress_round_witness:
  "uint (8 :: uint32_t) \<le> 15 \<and> uint (31 :: uint32_t) \<le> 31 \<and>
   uint (scalar_decompress_q_16 8) = 1665 \<and>
   uint (scalar_decompress_q_16 8) = round (real_of_int (uint (8 :: uint32_t) * MLKEM_Q) / 16) \<and>
   uint (scalar_decompress_q_32 31) = 3225"
proof -
  have a: "uint (8 :: uint32_t) \<le> 15" by simp
  have b: "uint (31 :: uint32_t) \<le> 31" by simp
  have c: "(uint (8 :: uint32_t) * MLKEM_Q + 8) div 16 = 1665" by simp
  have d: "(uint (31 :: uint32_t) * MLKEM_Q + 16) div 32 = 3225" by simp
  from scalar_decompress_round [OF a b] a b show ?thesis
    unfolding c d by metis
qed

text \<open>
  C10. Compression is an exact left inverse of decompression on the codes: for every
  \<open>d\<close> in \<open>[0, 15]\<close>, \<^verbatim>\<open>scalar_compress_q_16 (scalar_decompress_q_16 d) = d\<close>, and for every
  \<open>d\<close> in \<open>[0, 31]\<close>, \<^verbatim>\<open>scalar_compress_q_32 (scalar_decompress_q_32 d) = d\<close>.
\<close>

theorem compress_decompress_id:
  "uint d \<le> 15 \<Longrightarrow> uint e \<le> 31 \<Longrightarrow>
     scalar_compress_q_16 (scalar_decompress_q_16 d) = d \<and>
     scalar_compress_q_32 (scalar_decompress_q_32 e) = e"
proof (intro conjI)
  assume d: "uint d \<le> 15"
  let ?u = "scalar_decompress_q_16 d"
  have u: "uint ?u = (uint d * 3329 + 8) div 16" using d by (rule uint_d16)
  have "uint ?u \<le> 3121" using d by (rule decompress16_range)
  then have su: "sint ?u = uint ?u" by (intro uint_lt_sint32) simp
  have "uint (scalar_compress_q_16 ?u) = ((sint ?u * 16 + 1664) div 3329) mod 16"
    using \<open>uint ?u \<le> 3121\<close> by (intro compress16_exact) (simp_all add: su)
  also have "\<dots> = uint d"
    unfolding su u using d by (intro arith_inv16) simp_all
  finally show "scalar_compress_q_16 ?u = d" by (rule word_uint_eqI)
next
  assume e: "uint e \<le> 31"
  let ?u = "scalar_decompress_q_32 e"
  have u: "uint ?u = (uint e * 3329 + 16) div 32" using e by (rule uint_d32)
  have "uint ?u \<le> 3225" using e by (rule decompress32_range)
  then have su: "sint ?u = uint ?u" by (intro uint_lt_sint32) simp
  have "uint (scalar_compress_q_32 ?u) = ((sint ?u * 32 + 1664) div 3329) mod 32"
    using \<open>uint ?u \<le> 3225\<close> by (intro compress32_exact) (simp_all add: su)
  also have "\<dots> = uint e"
    unfolding su u using e by (intro arith_inv32) simp_all
  finally show "scalar_compress_q_32 ?u = e" by (rule word_uint_eqI)
qed

theorem compress_decompress_id_witness:
  "uint (15 :: uint32_t) \<le> 15 \<and> uint (31 :: uint32_t) \<le> 31 \<and>
   scalar_compress_q_16 (scalar_decompress_q_16 15) = 15 \<and>
   scalar_compress_q_32 (scalar_decompress_q_32 31) = 31"
  using compress_decompress_id [of 15 31] by simp

text \<open>
  C4. For \<open>b\<close> in \<open>{4, 5}\<close> and every \<open>u\<close> in \<open>[0, q - 1]\<close>, decompressing the
  compression of \<open>u\<close> gives a residue whose distance from \<open>u\<close> modulo \<open>q\<close> (the shorter
  way round, \<open>dist_mod_q\<close>) is at most \<open>round (q / 2 ^ (b + 1))\<close>: at most 104 for the
  16-bucket codec and at most 52 for the 32-bucket codec.
\<close>

theorem compress_decompress_error:
  assumes "0 \<le> sint u" and "sint u \<le> MLKEM_Q - 1"
  shows "dist_mod_q (uint (scalar_decompress_q_16 (scalar_compress_q_16 u))) (sint u) \<le> 104 \<and>
     dist_mod_q (uint (scalar_decompress_q_32 (scalar_compress_q_32 u))) (sint u) \<le> 52 \<and>
     round (MLKEM_Q / 2 ^ 5 :: real) = 104 \<and> round (MLKEM_Q / 2 ^ 6 :: real) = 52"
proof -
  have r: "sint u \<le> 3328"
    using assms(2) by simp
  have "uint (scalar_decompress_q_16 (scalar_compress_q_16 u)) =
      (((sint u * 16 + 1664) div 3329) mod 16 * 3329 + 8) div 16"
    by (simp only: uint_d16 [OF compress16_code] compress16_exact [OF assms(1) r])
  then have a: "dist_mod_q (uint (scalar_decompress_q_16 (scalar_compress_q_16 u))) (sint u) \<le> 104"
    using err16 [OF assms(1) r] by simp
  have "uint (scalar_decompress_q_32 (scalar_compress_q_32 u)) =
      (((sint u * 32 + 1664) div 3329) mod 32 * 3329 + 16) div 32"
    by (simp only: uint_d32 [OF compress32_code] compress32_exact [OF assms(1) r])
  then have b: "dist_mod_q (uint (scalar_decompress_q_32 (scalar_compress_q_32 u))) (sint u) \<le> 52"
    using err32 [OF assms(1) r] by simp
  show ?thesis
    using a b round_q32 round_q64 by blast
qed

theorem compress_decompress_error_witness:
  "0 \<le> sint (3225 :: int32_t) \<and> sint (3225 :: int32_t) \<le> MLKEM_Q - 1 \<and>
   dist_mod_q (uint (scalar_decompress_q_16 (scalar_compress_q_16 3225))) (sint (3225 :: int32_t)) = 104 \<and>
   dist_mod_q (uint (scalar_decompress_q_16 (scalar_compress_q_16 3225))) (sint (3225 :: int32_t)) \<le> 104"
proof -
  have a: "0 \<le> sint (3225 :: int32_t)" by simp
  have b: "sint (3225 :: int32_t) \<le> MLKEM_Q - 1" by simp
  have c: "dist_mod_q (uint (scalar_decompress_q_16 (scalar_compress_q_16 3225))) (sint (3225 :: int32_t)) = 104"
    by (simp add: c16_3225 scalar_decompress_q_16_def dist_mod_q_def)
  from compress_decompress_error [OF a b] a b c show ?thesis
    by blast
qed

text \<open>
  C9. For every \<open>c\<close> in \<open>[- (q - 1), q - 1]\<close>, \<^verbatim>\<open>scalar_signed_to_unsigned_q_16\<close> returns
  \<open>c + q\<close> when \<open>c\<close> is negative and \<open>c\<close> otherwise, a value in \<open>[0, q - 1]\<close> (so the
  two assertions of the body on the signed reading of the result hold); it maps
  0 to 0, 1 to 1, 3328 to 3328, -1 to 3328, -2 to 3327 and -3328 to 1.
\<close>

theorem scalar_signed_to_unsigned_q_16_correct:
  assumes "- (MLKEM_Q - 1) \<le> sint c" and "sint c \<le> MLKEM_Q - 1"
  shows "uint (scalar_signed_to_unsigned_q_16 c) = (if sint c < 0 then sint c + MLKEM_Q else sint c) \<and>
     0 \<le> uint (scalar_signed_to_unsigned_q_16 c) \<and>
     uint (scalar_signed_to_unsigned_q_16 c) \<le> MLKEM_Q - 1 \<and>
     sint (scalar_signed_to_unsigned_q_16 c) = uint (scalar_signed_to_unsigned_q_16 c) \<and>
     scalar_signed_to_unsigned_q_16 0 = 0 \<and>
     scalar_signed_to_unsigned_q_16 1 = 1 \<and>
     scalar_signed_to_unsigned_q_16 3328 = 3328 \<and>
     scalar_signed_to_unsigned_q_16 (- 1) = 3328 \<and>
     scalar_signed_to_unsigned_q_16 (- 2) = 3327 \<and>
     scalar_signed_to_unsigned_q_16 (- 3328) = 1"
proof -
  have r: "- 3328 \<le> sint c" "sint c \<le> 3328"
    using assms by simp_all
  have v: "uint (scalar_signed_to_unsigned_q_16 c) = (if sint c < 0 then sint c + 3329 else sint c)"
    using r by (rule to_unsigned_uint)
  then have le: "uint (scalar_signed_to_unsigned_q_16 c) \<le> MLKEM_Q - 1"
    using r by (simp split: if_splits)
  then have "sint (scalar_signed_to_unsigned_q_16 c) = uint (scalar_signed_to_unsigned_q_16 c)"
    by (intro uint_lt_sint16) simp
  moreover have "0 \<le> uint (scalar_signed_to_unsigned_q_16 c)"
    by simp
  ultimately show ?thesis
    using v le to_unsigned_examples by blast
qed

theorem scalar_signed_to_unsigned_q_16_correct_witness:
  "- (MLKEM_Q - 1) \<le> sint (- 3328 :: int16_t) \<and> sint (- 3328 :: int16_t) \<le> MLKEM_Q - 1 \<and>
   uint (scalar_signed_to_unsigned_q_16 (- 3328)) = 1"
proof -
  have a: "- (MLKEM_Q - 1) \<le> sint (- 3328 :: int16_t)" by simp
  have b: "sint (- 3328 :: int16_t) \<le> MLKEM_Q - 1" by simp
  have c: "(if sint (- 3328 :: int16_t) < 0 then sint (- 3328 :: int16_t) + MLKEM_Q else sint (- 3328 :: int16_t)) = 1"
    by simp
  from scalar_signed_to_unsigned_q_16_correct [OF a b] a b show ?thesis
    unfolding c by blast
qed

text \<open>
  C7. For every message \<open>m\<close> of 32 bytes, \<^verbatim>\<open>poly_tomsg\<close> applied to the ring element of
  \<^verbatim>\<open>poly_frommsg\<close> gives back \<open>m\<close> bit for bit, where encoding maps a clear bit to 0
  and a set bit to the midpoint near \<open>q / 2\<close> and decoding is the 1-bit compression.
\<close>

theorem poly_tomsg_frommsg:
  assumes "length msg = MLKEM_INDCPA_MSGBYTES"
    and "half = MLKEM_Q div 2 \<or> half = MLKEM_Q div 2 + 1"
  shows "poly_tomsg (poly_frommsg half msg) = msg"
proof -
  let ?r = "poly_frommsg half msg"
  have coeff: "coeffs ?r ! (8 * i + j) = cmov_int16 0 half (of_bool (bit (msg ! i) j))"
    if "i < 32" "j < 8" for i j
    using that by (simp add: poly_frommsg_def MLKEM_N_def)
  have byte: "horner_sum of_nat 2
      (map (\<lambda>j. compress (unat (scalar_signed_to_unsigned_q_16 (coeffs ?r ! (8 * i + j)))) 1)
        [0..<8]) = msg ! i"
    if "i \<in> set [0..<32]" for i
  proof -
    have i: "i < 32"
      using that by simp
    have "map (\<lambda>j. compress (unat (scalar_signed_to_unsigned_q_16 (coeffs ?r ! (8 * i + j)))) 1)
        [0..<8] = map (\<lambda>j. of_bool (bit (msg ! i) j)) [0..<8]"
    proof (rule map_cong [OF refl])
      fix j
      assume "j \<in> set [0..<8]"
      then have j: "j < 8"
        by simp
      show "compress (unat (scalar_signed_to_unsigned_q_16 (coeffs ?r ! (8 * i + j)))) 1
          = of_bool (bit (msg ! i) j)"
        by (simp only: coeff [OF i j] decode_bit [OF assms(2)])
    qed
    then show ?thesis
      by (simp only: byte_of_bits)
  qed
  have "poly_tomsg ?r = map (\<lambda>i. msg ! i) [0..<32]"
    unfolding poly_tomsg_def MLKEM_INDCPA_MSGBYTES_def
    by (rule map_cong [OF refl]) (rule byte)
  also have "\<dots> = msg"
    using assms(1) map_nth [of msg] by (simp add: MLKEM_INDCPA_MSGBYTES_def)
  finally show ?thesis .
qed

theorem poly_tomsg_frommsg_witness:
  "poly_tomsg (poly_frommsg 1665 (replicate 31 0xA5 @ [0x01])) = replicate 31 0xA5 @ [0x01]"
proof -
  have a: "length (replicate 31 (0xA5 :: uint8_t) @ [0x01]) = MLKEM_INDCPA_MSGBYTES"
    by (simp add: MLKEM_INDCPA_MSGBYTES_def)
  have b: "(1665 :: int16_t) = MLKEM_Q div 2 \<or> (1665 :: int16_t) = MLKEM_Q div 2 + 1"
    by simp
  from poly_tomsg_frommsg [OF a b] show ?thesis .
qed

text \<open>
  C6. For every seed and every four nonce bytes, the four ring elements of the batched
  sampler \<^verbatim>\<open>poly_getnoise_eta2_4x\<close> are those of four single-lane calls of
  \<^verbatim>\<open>poly_getnoise_eta2\<close> with the same seed and the respective nonces.
\<close>

theorem poly_getnoise_eta2_4x_lanes:
  "poly_getnoise_eta2_4x X eta2 seed nonce0 nonce1 nonce2 nonce3 =
     (poly_getnoise_eta2 X eta2 seed nonce0, poly_getnoise_eta2 X eta2 seed nonce1,
      poly_getnoise_eta2 X eta2 seed nonce2, poly_getnoise_eta2 X eta2 seed nonce3)"
  by (simp add: poly_getnoise_eta2_4x_def poly_getnoise_eta2_def shake256x4_lanes)

theorem poly_getnoise_eta2_4x_lanes_witness:
  "poly_getnoise_eta2_4x
      \<lparr>xof_absorb = (\<lambda>inp. inp), xof_squeezeblock = (\<lambda>s. (replicate 136 (last s), s)), xof_rate = 136\<rparr>
      2 (replicate 32 0x5A) 0 1 2 3 =
     (poly_getnoise_eta2
        \<lparr>xof_absorb = (\<lambda>inp. inp), xof_squeezeblock = (\<lambda>s. (replicate 136 (last s), s)), xof_rate = 136\<rparr>
        2 (replicate 32 0x5A) 0,
      poly_getnoise_eta2
        \<lparr>xof_absorb = (\<lambda>inp. inp), xof_squeezeblock = (\<lambda>s. (replicate 136 (last s), s)), xof_rate = 136\<rparr>
        2 (replicate 32 0x5A) 1,
      poly_getnoise_eta2
        \<lparr>xof_absorb = (\<lambda>inp. inp), xof_squeezeblock = (\<lambda>s. (replicate 136 (last s), s)), xof_rate = 136\<rparr>
        2 (replicate 32 0x5A) 2,
      poly_getnoise_eta2
        \<lparr>xof_absorb = (\<lambda>inp. inp), xof_squeezeblock = (\<lambda>s. (replicate 136 (last s), s)), xof_rate = 136\<rparr>
        2 (replicate 32 0x5A) 3) \<and>
   poly_getnoise_eta2
        \<lparr>xof_absorb = (\<lambda>inp. inp), xof_squeezeblock = (\<lambda>s. (replicate 136 (last s), s)), xof_rate = 136\<rparr>
        2 (replicate 32 0x5A) 3 \<noteq> None"
proof -
  let ?X = "\<lparr>xof_absorb = (\<lambda>inp :: uint8_t list. inp),
     xof_squeezeblock = (\<lambda>s. (replicate 136 (last s), s)), xof_rate = 136\<rparr>"
  have "poly_getnoise_eta2 ?X 2 (replicate 32 0x5A) 3 \<noteq> None"
    by (rule poly_getnoise_eta2_defined) simp_all
  then show ?thesis
    using poly_getnoise_eta2_4x_lanes [of ?X 2 "replicate 32 0x5A" 0 1 2 3] by blast
qed

end
